theory Spec2Isabelle
  imports Main "HOL-Library.Signed_Division"
begin

section \<open>Full graphs and full citation graphs\<close>

text \<open>
  This theory embeds \<^verbatim>\<open>src/constructors/full.c\<close>: the two generators
  \<^verbatim>\<open>igraph_full\<close> and \<^verbatim>\<open>igraph_full_citation\<close>.

  The loop counters (\<^verbatim>\<open>long int i, j, ptr\<close>) and the vertex count
  (\<^verbatim>\<open>igraph_integer_t n\<close>) are modelled as \<^typ>\<open>int\<close>: the loops only compare the
  counters with \<open>n\<close> and increment them below it. The width of \<^verbatim>\<open>igraph_integer_t\<close> is
  declared outside the file and is a parameter, \<open>bits\<close>, of what depends on it:
  \<^verbatim>\<open>igraph_full_citation\<close> computes the length of its vector as \<open>n * (n - 1)\<close> in that
  type, with no check, so the product is modelled in two's complement of that width. In
  \<^verbatim>\<open>igraph_full\<close> the products \<open>n * n\<close>, \<open>n * (n - 1)\<close>, \<open>n * (n + 1)\<close> are only the
  argument of \<^verbatim>\<open>igraph_vector_reserve\<close>, which never changes the slots in use; they are
  written as the mathematical products.

  The edge vector stores the indices as \<^verbatim>\<open>igraph_real_t\<close>, which represents every such
  index exactly, so the slots are modelled as \<^typ>\<open>int\<close> too. Memory allocation is taken
  to succeed.
\<close>

subsection \<open>The integer type\<close>

text \<open>
  Arithmetic in \<^verbatim>\<open>igraph_integer_t\<close>, a signed type of \<open>bits\<close> bits: the value of that
  type that equals \<open>x\<close> modulo \<open>2 ^ bits\<close>. It is \<open>x\<close> itself when
  \<open>- (2 ^ (bits - 1)) \<le> x < 2 ^ (bits - 1)\<close>; a result outside that range wraps around.
\<close>

definition igraph_integer :: "nat \<Rightarrow> int \<Rightarrow> int" where
  "igraph_integer bits x = (x + 2 ^ (bits - 1)) mod 2 ^ bits - 2 ^ (bits - 1)"

subsection \<open>Error codes\<close>

datatype igraph_error = IGRAPH_FAILURE | IGRAPH_ENOMEM | IGRAPH_EINVAL | IGRAPH_EINVVID

subsection \<open>The edge vector\<close>

text \<open>
  \<open>elems\<close> are the slots in use, \<open>capacity\<close> the number of slots allocated, and \<open>grown\<close>
  counts how often \<^verbatim>\<open>igraph_vector_push_back\<close> had to reallocate the storage.
\<close>

record igraph_vector =
  elems :: "int list"
  capacity :: nat
  grown :: nat

text \<open>
  Modelled from the spec: \<^verbatim>\<open>igraph_vector_init\<close> (behind \<^verbatim>\<open>IGRAPH_VECTOR_INIT_FINALLY\<close>)
  is not part of the file. The vector is created with the given number of slots, pre-sized
  to exactly that length; the slots start as zero.
\<close>

definition igraph_vector_init :: "int \<Rightarrow> igraph_vector" where
  "igraph_vector_init sz =
     \<lparr>elems = replicate (nat sz) 0, capacity = nat sz, grown = 0\<rparr>"

text \<open>
  Modelled from the spec: \<^verbatim>\<open>igraph_vector_reserve\<close> is not part of the file.
  \<open>reserve(capacity)\<close> pre-allocates storage for \<open>capacity\<close> vertex-index slots
  (slots, not edges); the slots in use are unchanged.
\<close>

definition igraph_vector_reserve :: "igraph_vector \<Rightarrow> int \<Rightarrow> igraph_vector" where
  "igraph_vector_reserve v cap =
     (if cap \<le> int (capacity v) then v else v\<lparr>capacity := nat cap\<rparr>)"

text \<open>
  Modelled from the spec: \<^verbatim>\<open>igraph_vector_push_back\<close> is not part of the file.
  Appending is amortised constant time: when every allocated slot is in use the storage
  is reallocated to twice its size (at least one slot), and that reallocation is counted
  in \<open>grown\<close>; otherwise the slot is written into the reserved storage.
\<close>

definition igraph_vector_push_back :: "igraph_vector \<Rightarrow> int \<Rightarrow> igraph_vector" where
  "igraph_vector_push_back v e =
     (let v' = (if length (elems v) < capacity v then v
                else v\<lparr>capacity := max 1 (2 * length (elems v)), grown := grown v + 1\<rparr>)
      in v'\<lparr>elems := elems v' @ [e]\<rparr>)"

text \<open>
  The indexed write \<^verbatim>\<open>VECTOR(edges)[p] = x\<close>. A write outside the slots in use is
  undefined behaviour in C; the model returns \<open>None\<close> there.
\<close>

definition vector_set :: "igraph_vector \<Rightarrow> int \<Rightarrow> int \<Rightarrow> igraph_vector option" where
  "vector_set v p x =
     (if 0 \<le> p \<and> p < int (length (elems v))
      then Some (v\<lparr>elems := (elems v)[nat p := x]\<rparr>) else None)"

text \<open>
  The graph constructor reads the flat vector as consecutive pairs: slots \<open>2k\<close> and
  \<open>2k + 1\<close> are the two end points of edge \<open>k\<close>.
\<close>

fun edge_pairs :: "int list \<Rightarrow> (int \<times> int) list" where
  "edge_pairs (u # v # xs) = (u, v) # edge_pairs xs"
| "edge_pairs _ = []"

subsection \<open>Loops\<close>

text \<open>
  \<^verbatim>\<open>for (k = lo; k < hi; k++) body\<close>, for a body that changes neither \<open>k\<close> nor \<open>hi\<close>.
\<close>

function for_loop :: "int \<Rightarrow> int \<Rightarrow> (int \<Rightarrow> 's \<Rightarrow> 's) \<Rightarrow> 's \<Rightarrow> 's" where
  "for_loop k hi body s = (if k < hi then for_loop (k + 1) hi body (body k s) else s)"
  by pat_completeness auto
termination
  by (relation "measure (\<lambda>(k, hi, body, s). nat (hi - k))") auto

declare for_loop.simps [simp del]

text \<open>The body of every loop of \<^verbatim>\<open>igraph_full\<close>: two appends, first \<open>i\<close>, then \<open>j\<close>.\<close>

definition push_edge :: "int \<Rightarrow> int \<Rightarrow> igraph_vector \<Rightarrow> igraph_vector" where
  "push_edge i j edges = igraph_vector_push_back (igraph_vector_push_back edges i) j"

subsection \<open>\<^verbatim>\<open>igraph_full\<close>\<close>

text \<open>
  Lines 66 to 111: the check of \<open>n\<close>, the empty vector, and the four branches, each
  reserving and then filling the vector. The result is the vector handed to
  \<^verbatim>\<open>igraph_create\<close>.
\<close>

definition igraph_full_edges :: "int \<Rightarrow> bool \<Rightarrow> bool \<Rightarrow> igraph_error + igraph_vector" where
  "igraph_full_edges n directed loops =
     (if n < 0 then Inl IGRAPH_EINVAL
      else
        let edges = igraph_vector_init 0 in
        if directed \<and> loops then
          Inr (for_loop 0 n (\<lambda>i. for_loop 0 n (push_edge i))
                 (igraph_vector_reserve edges (n * n)))
        else if directed \<and> \<not> loops then
          Inr (for_loop 0 n
                 (\<lambda>i edges. for_loop (i + 1) n (push_edge i) (for_loop 0 i (push_edge i) edges))
                 (igraph_vector_reserve edges (n * (n - 1))))
        else if \<not> directed \<and> loops then
          Inr (for_loop 0 n (\<lambda>i. for_loop i n (push_edge i))
                 (igraph_vector_reserve edges (n * (n + 1) sdiv 2)))
        else
          Inr (for_loop 0 n (\<lambda>i. for_loop (i + 1) n (push_edge i))
                 (igraph_vector_reserve edges (n * (n - 1) sdiv 2))))"

text \<open>
  The whole function, with \<^verbatim>\<open>igraph_create\<close> (the graph constructor, outside the file)
  as a parameter: it receives the edge vector, \<open>n\<close> and \<open>directed\<close>, and its result,
  error or graph, is returned unchanged.
\<close>

definition igraph_full ::
  "(int list \<Rightarrow> int \<Rightarrow> bool \<Rightarrow> igraph_error + 'g) \<Rightarrow> int \<Rightarrow> bool \<Rightarrow> bool \<Rightarrow> igraph_error + 'g" where
  "igraph_full igraph_create n directed loops =
     (case igraph_full_edges n directed loops of
        Inl e \<Rightarrow> Inl e
      | Inr edges \<Rightarrow> igraph_create (elems edges) n directed)"

subsection \<open>\<^verbatim>\<open>igraph_full_citation\<close>\<close>

text \<open>
  The loop body of lines 145 and 146: two indexed writes through the cursor \<open>ptr\<close>.
  The state is the vector and the cursor; \<open>None\<close> once a write has left the vector.
\<close>

definition write_edge ::
  "int \<Rightarrow> int \<Rightarrow> (igraph_vector \<times> int) option \<Rightarrow> (igraph_vector \<times> int) option" where
  "write_edge i j s =
     (case s of
        None \<Rightarrow> None
      | Some (edges, ptr) \<Rightarrow>
          (case vector_set edges ptr i of
             None \<Rightarrow> None
           | Some edges1 \<Rightarrow>
               (case vector_set edges1 (ptr + 1) j of
                  None \<Rightarrow> None
                | Some edges2 \<Rightarrow> Some (edges2, ptr + 2))))"

text \<open>
  Lines 139 to 148: the two loops (\<open>citation_loops\<close>, from a given vector and cursor),
  run with \<open>ptr = 0\<close> on the vector whose number of slots is \<open>n * (n - 1)\<close> as computed in
  \<^verbatim>\<open>igraph_integer_t\<close> (a negative size gives no slot). There is no check of \<open>n\<close> and
  none of the product. The result is the filled vector and the final value of \<open>ptr\<close>.
\<close>

definition citation_loops ::
  "int \<Rightarrow> (igraph_vector \<times> int) option \<Rightarrow> (igraph_vector \<times> int) option" where
  "citation_loops n s = for_loop 1 n (\<lambda>i. for_loop 0 i (write_edge i)) s"

definition igraph_full_citation_edges :: "nat \<Rightarrow> int \<Rightarrow> (igraph_vector \<times> int) option" where
  "igraph_full_citation_edges bits n =
     citation_loops n
       (Some (igraph_vector_init (igraph_integer bits (n * igraph_integer bits (n - 1))), 0))"

definition igraph_full_citation ::
  "nat \<Rightarrow> (int list \<Rightarrow> int \<Rightarrow> bool \<Rightarrow> igraph_error + 'g) \<Rightarrow> int \<Rightarrow> bool \<Rightarrow>
     (igraph_error + 'g) option" where
  "igraph_full_citation bits igraph_create n directed =
     (case igraph_full_citation_edges bits n of
        None \<Rightarrow> None
      | Some (edges, ptr) \<Rightarrow> Some (igraph_create (elems edges) n directed))"

subsection \<open>A graph constructor that records its call\<close>

text \<open>
  An instance for the parameter \<open>igraph_create\<close>: it accepts every call and returns
  its three arguments, so that the result of a generator shows whether and with what the
  constructor was invoked.
\<close>

definition igraph_create_trace ::
  "int list \<Rightarrow> int \<Rightarrow> bool \<Rightarrow> igraph_error + (int list \<times> int \<times> bool)" where
  "igraph_create_trace edges n directed = Inr (edges, n, directed)"

subsection \<open>Edge lists written out\<close>

text \<open>The flat vector of a list of edges: the inverse reading of \<open>edge_pairs\<close>.\<close>

definition flat :: "(int \<times> int) list \<Rightarrow> int list" where
  "flat ps = concat (map (\<lambda>(u, v). [u, v]) ps)"

text \<open>The edges \<open>(i, j)\<close> for \<open>i\<close> along \<open>is\<close> and, for each \<open>i\<close>, \<open>j\<close> along \<open>row i\<close>.\<close>

definition rows :: "(int \<Rightarrow> int list) \<Rightarrow> int list \<Rightarrow> (int \<times> int) list" where
  "rows row is = concat (map (\<lambda>i. map (Pair i) (row i)) is)"

text \<open>The second indices that each branch of \<^verbatim>\<open>igraph_full\<close> visits for a given \<open>i\<close>.\<close>

definition full_row :: "int \<Rightarrow> bool \<Rightarrow> bool \<Rightarrow> int \<Rightarrow> int list" where
  "full_row n directed loops i =
     (if directed then (if loops then [0..n - 1] else [0..i - 1] @ [i + 1..n - 1])
      else (if loops then [i..n - 1] else [i + 1..n - 1]))"

text \<open>The order of emission: by first index, then by second index.\<close>

definition emit_order :: "int \<times> int \<Rightarrow> int \<times> int \<Rightarrow> bool" where
  "emit_order e f \<longleftrightarrow> fst e < fst f \<or> (fst e = fst f \<and> snd e < snd f)"

text \<open>
  The state of a vector that was given \<open>c\<close> slots of storage: the slots in use fit the
  storage; as long as no append has reallocated, the storage is still those \<open>c\<close> slots;
  and once an append has reallocated, more than \<open>c\<close> slots are in use.
\<close>

definition within_reserve :: "nat \<Rightarrow> igraph_vector \<Rightarrow> bool" where
  "within_reserve c v \<longleftrightarrow>
     length (elems v) \<le> capacity v \<and>
     (grown v = 0 \<longrightarrow> capacity v = c) \<and>
     (0 < grown v \<longrightarrow> c < length (elems v))"

subsection \<open>Loops as folds\<close>

lemma for_loop_fold: "for_loop k hi body s = fold body [k..hi - 1] s"
proof (induction k hi body s rule: for_loop.induct)
  case (1 k hi body s)
  show ?case
  proof (cases "k < hi")
    case True
    then have "[k..hi - 1] = k # [k + 1..hi - 1]"
      by (simp add: upto_rec1)
    with True 1 show ?thesis
      by (simp add: for_loop.simps [of k])
  next
    case False
    then show ?thesis
      by (simp add: for_loop.simps [of k])
  qed
qed

lemma for_loop_eq_fold: "for_loop k hi body = fold body [k..hi - 1]"
  by (rule ext) (rule for_loop_fold)

subsection \<open>The contents of the edge vector\<close>

lemma flat_simps [simp]:
  "flat [] = []" 
  "flat ((u, v) # ps) = u # v # flat ps"
  "flat (ps @ qs) = flat ps @ flat qs"
  by (simp_all add: flat_def)

lemma rows_simps [simp]:
  "rows row [] = []"
  "rows row (i # is) = map (Pair i) (row i) @ rows row is"
  "rows row (is @ js) = rows row is @ rows row js"
  by (simp_all add: rows_def)

lemma edge_pairs_flat [simp]: "edge_pairs (flat ps) = ps"
  by (induction ps) auto

lemma length_flat [simp]: "length (flat ps) = 2 * length ps"
  by (induction ps) auto

lemma elems_push_edge: "elems (push_edge i j v) = elems v @ [i, j]"
  by (simp add: push_edge_def igraph_vector_push_back_def Let_def)

lemma elems_fold_push_edge:
  "elems (fold (push_edge i) js v) = elems v @ flat (map (Pair i) js)"
  by (induction js arbitrary: v) (simp_all add: elems_push_edge)

lemma elems_fold_rows:
  assumes "\<And>i v. elems (body i v) = elems v @ flat (map (Pair i) (row i))"
  shows "elems (fold body is v) = elems v @ flat (rows row is)"
  using assms by (induction "is" arbitrary: v) simp_all

lemma elems_reserve [simp]: "elems (igraph_vector_reserve v c) = elems v"
  by (simp add: igraph_vector_reserve_def)

lemma elems_init_0 [simp]: "elems (igraph_vector_init 0) = []"
  by (simp add: igraph_vector_init_def)

lemma igraph_full_edges_rows:
  assumes "0 \<le> n"
  shows "\<exists>v. igraph_full_edges n directed loops = Inr v \<and>
             elems v = flat (rows (full_row n directed loops) [0..n - 1])"
proof -
  have dl: "elems (fold (\<lambda>i. fold (push_edge i) [0..n - 1]) is v) =
              elems v @ flat (rows (\<lambda>i. [0..n - 1]) is)" for "is" v
    by (rule elems_fold_rows) (simp add: elems_fold_push_edge)
  have dn: "elems (fold (\<lambda>i edges. fold (push_edge i) [i + 1..n - 1]
                                  (fold (push_edge i) [0..i - 1] edges)) is v) =
              elems v @ flat (rows (\<lambda>i. [0..i - 1] @ [i + 1..n - 1]) is)" for "is" v
    by (rule elems_fold_rows) (simp add: elems_fold_push_edge)
  have ul: "elems (fold (\<lambda>i. fold (push_edge i) [i..n - 1]) is v) =
              elems v @ flat (rows (\<lambda>i. [i..n - 1]) is)" for "is" v
    by (rule elems_fold_rows) (simp add: elems_fold_push_edge)
  have un: "elems (fold (\<lambda>i. fold (push_edge i) [i + 1..n - 1]) is v) =
              elems v @ flat (rows (\<lambda>i. [i + 1..n - 1]) is)" for "is" v
    by (rule elems_fold_rows) (simp add: elems_fold_push_edge)
  show ?thesis
    using assms
    by (cases directed; cases loops)
      (simp_all add: igraph_full_edges_def Let_def for_loop_eq_fold full_row_def [abs_def] dl dn ul un)
qed

subsection \<open>Sets, lengths and order of the written-out edge lists\<close>

lemma set_rows: "set (rows row is) = {(i, j). i \<in> set is \<and> j \<in> set (row i)}"
  by (auto simp: rows_def)

lemma length_rows: "int (length (rows row is)) = sum_list (map (\<lambda>i. int (length (row i))) is)"
  by (induction "is") simp_all

lemma sorted_wrt_rows:
  assumes "sorted_wrt (<) is" and "\<And>i. i \<in> set is \<Longrightarrow> sorted_wrt (<) (row i)"
  shows "sorted_wrt emit_order (rows row is)"
  using assms
proof (induction "is")
  case Nil
  then show ?case by simp
next
  case (Cons i "is")
  have "sorted_wrt emit_order (map (Pair i) (row i))"
    using Cons.prems(2) [of i] by (simp add: sorted_wrt_map emit_order_def)
  moreover have "sorted_wrt emit_order (rows row is)"
    using Cons by simp
  moreover have "\<forall>e \<in> set (map (Pair i) (row i)). \<forall>f \<in> set (rows row is). emit_order e f"
    using Cons.prems(1) by (auto simp: set_rows emit_order_def)
  ultimately show ?case
    by (simp add: sorted_wrt_append)
qed

lemma sorted_wrt_less_upto: "sorted_wrt (<) [i..j]"
  by (simp add: strict_sorted_iff)

lemma sorted_wrt_full_row: "sorted_wrt (<) (full_row n directed loops i)"
  by (auto simp: full_row_def sorted_wrt_append sorted_wrt_less_upto)

lemma emit_order_distinct: "sorted_wrt emit_order es \<Longrightarrow> distinct es"
  by (induction es) (auto simp: emit_order_def)

lemma set_full_rows:
  "set (rows (full_row n directed loops) [0..n - 1]) =
     {(i, j). 0 \<le> i \<and> i < n \<and> 0 \<le> j \<and> j < n \<and> (\<not> loops \<longrightarrow> i \<noteq> j) \<and> (\<not> directed \<longrightarrow> i \<le> j)}"
  by (cases directed; cases loops) (auto simp: set_rows full_row_def)

lemma sum_list_const: "sum_list (map (\<lambda>i. c) xs) = int (length xs) * c" for c :: int
  by (induction xs) (simp_all add: algebra_simps)

lemma sum_list_descending:
  "k \<le> n \<Longrightarrow> 2 * sum_list (map (\<lambda>i. n - i) [k..n - 1]) = (n - k) * (n - k + 1)" for n :: int
proof (induction k rule: int_le_induct)
  case base
  then show ?case by simp
next
  case (step k)
  have "[k - 1..n - 1] = (k - 1) # [k..n - 1]"
    using step.hyps by (simp add: upto_rec1)
  then show ?case using step by (simp add: algebra_simps)
qed

lemma length_full_rows:
  assumes "0 \<le> n"
  shows "int (length (rows (full_row n directed loops) [0..n - 1])) =
     (if directed then (if loops then n * n else n * (n - 1))
      else (if loops then n * (n + 1) div 2 else n * (n - 1) div 2))"
proof -
  have ul: "2 * sum_list (map (\<lambda>i. int (length [i..n - 1])) [0..n - 1]) = n * (n + 1)"
  proof -
    have eq: "map (\<lambda>i. int (length [i..n - 1])) [0..n - 1] = map (\<lambda>i. n - i) [0..n - 1]"
      by (rule map_cong) auto
    show ?thesis unfolding eq using sum_list_descending [of 0 n] assms by simp
  qed
  have un: "2 * sum_list (map (\<lambda>i. int (length [i + 1..n - 1])) [0..n - 1]) = n * (n - 1)"
  proof -
    show ?thesis
    proof (cases "n = 0")
      case True
      then show ?thesis by simp
    next
      case False
      with assms have split: "[0..n - 1] = [0..n - 2] @ [n - 1]"
        by (simp add: upto_rec2)
      have eq: "map (\<lambda>i. int (length [i + 1..n - 1])) [0..n - 2] =
                  map (\<lambda>i. (n - 1) - i) [0..n - 2]"
        by (rule map_cong) auto
      have "2 * sum_list (map (\<lambda>i. int (length [i + 1..n - 1])) [0..n - 1]) =
              2 * sum_list (map (\<lambda>i. (n - 1) - i) [0..n - 2])"
        by (simp only: split map_append sum_list_append eq) simp
      also have "\<dots> = (n - 1) * n"
        using sum_list_descending [of 0 "n - 1"] assms False by simp
      finally show ?thesis by (simp add: algebra_simps)
    qed
  qed
  have dn: "sum_list (map (\<lambda>i. int (length ([0..i - 1] @ [i + 1..n - 1]))) [0..n - 1]) = n * (n - 1)"
  proof -
    have eq: "map (\<lambda>i. int (length ([0..i - 1] @ [i + 1..n - 1]))) [0..n - 1] =
                map (\<lambda>i. n - 1) [0..n - 1]"
      by (rule map_cong) auto
    show ?thesis unfolding eq using assms by (simp add: sum_list_const)
  qed
  show ?thesis
    using assms ul un dn
    by (cases directed; cases loops) (simp_all add: length_rows full_row_def [abs_def] sum_list_const)
qed

lemma sorted_full_rows: "sorted_wrt emit_order (rows (full_row n directed loops) [0..n - 1])"
  by (rule sorted_wrt_rows) (simp_all add: sorted_wrt_less_upto sorted_wrt_full_row)

subsection \<open>The indexed writes of the citation loops\<close>

lemma write_edge_Some:
  assumes "elems v = pre @ a # b # rest" and "p = int (length pre)"
  shows "write_edge i j (Some (v, p)) = Some (v\<lparr>elems := pre @ i # j # rest\<rparr>, p + 2)"
proof -
  have 1: "vector_set v p i = Some (v\<lparr>elems := pre @ i # b # rest\<rparr>)"
    using assms by (simp add: vector_set_def)
  have "nat (p + 1) = Suc (length pre)"
    using assms by simp
  then have 2: "vector_set (v\<lparr>elems := pre @ i # b # rest\<rparr>) (p + 1) j =
                  Some (v\<lparr>elems := pre @ i # j # rest\<rparr>)"
    using assms by (simp add: vector_set_def list_update_append)
  show ?thesis
    by (simp add: write_edge_def 1 2)
qed

lemma fold_write_edge:
  assumes "elems v = pre @ mid @ rest" and "length mid = 2 * length js" and "p = int (length pre)"
  shows "fold (write_edge i) js (Some (v, p)) =
           Some (v\<lparr>elems := pre @ flat (map (Pair i) js) @ rest\<rparr>, p + 2 * int (length js))"
  using assms
proof (induction js arbitrary: v pre mid p)
  case Nil
  then show ?case by simp
next
  case (Cons j js)
  then obtain a b mid' where mid: "mid = a # b # mid'"
    by (cases mid; cases "tl mid") auto
  have step: "write_edge i j (Some (v, p)) = Some (v\<lparr>elems := pre @ i # j # mid' @ rest\<rparr>, p + 2)"
    using Cons.prems mid by (intro write_edge_Some) simp_all
  have "fold (write_edge i) js (Some (v\<lparr>elems := pre @ i # j # mid' @ rest\<rparr>, p + 2)) =
          Some (v\<lparr>elems := pre @ i # j # mid' @ rest\<rparr>
                 \<lparr>elems := (pre @ [i, j]) @ flat (map (Pair i) js) @ rest\<rparr>,
                p + 2 + 2 * int (length js))"
    using Cons.prems mid by (intro Cons.IH [where mid = mid']) simp_all
  with step show ?case by simp
qed

lemma fold_rows_write_edge:
  assumes "elems v = pre @ mid @ rest" and "length mid = 2 * length (rows row is)"
    and "p = int (length pre)"
  shows "fold (\<lambda>i. fold (write_edge i) (row i)) is (Some (v, p)) =
           Some (v\<lparr>elems := pre @ flat (rows row is) @ rest\<rparr>,
                 p + 2 * int (length (rows row is)))"
  using assms
proof (induction "is" arbitrary: v pre mid p)
  case Nil
  then show ?case by simp
next
  case (Cons i "is")
  define k where "k = 2 * length (row i)"
  have lk: "length (take k mid) = 2 * length (row i)"
    and ld: "length (drop k mid) = 2 * length (rows row is)"
    using Cons.prems(2) by (simp_all add: k_def)
  have e: "elems v = pre @ take k mid @ (drop k mid @ rest)"
    using Cons.prems(1) by simp
  have inner: "fold (write_edge i) (row i) (Some (v, p)) =
      Some (v\<lparr>elems := pre @ flat (map (Pair i) (row i)) @ drop k mid @ rest\<rparr>,
            p + 2 * int (length (row i)))"
    by (rule fold_write_edge [OF e lk Cons.prems(3)])
  have "fold (\<lambda>i. fold (write_edge i) (row i)) is
          (Some (v\<lparr>elems := pre @ flat (map (Pair i) (row i)) @ drop k mid @ rest\<rparr>,
                 p + 2 * int (length (row i)))) =
        Some (v\<lparr>elems := pre @ flat (map (Pair i) (row i)) @ drop k mid @ rest\<rparr>
               \<lparr>elems := (pre @ flat (map (Pair i) (row i))) @ flat (rows row is) @ rest\<rparr>,
              p + 2 * int (length (row i)) + 2 * int (length (rows row is)))"
    using Cons.prems ld by (intro Cons.IH [where mid = "drop k mid"]) simp_all
  with inner show ?case by simp
qed

lemma sum_list_upto_1: "0 \<le> m \<Longrightarrow> 2 * sum_list [1..m] = m * (m + 1)" for m :: int
proof (induction m rule: int_ge_induct)
  case base
  then show ?case by simp
next
  case (step m)
  then have "[1..m + 1] = [1..m] @ [m + 1]"
    by (simp add: upto_rec2)
  with step show ?case by (simp add: algebra_simps)
qed

lemma length_citation_rows:
  assumes "0 \<le> n"
  shows "2 * int (length (rows (\<lambda>i. [0..i - 1]) [1..n - 1])) = n * (n - 1)"
proof (cases "n = 0")
  case True
  then show ?thesis by simp
next
  case False
  have eq: "map (\<lambda>i. int (length [0..i - 1])) [1..n - 1] = map (\<lambda>i. i) [1..n - 1]"
    by (rule map_cong) auto
  have "int (length (rows (\<lambda>i. [0..i - 1]) [1..n - 1])) = sum_list (map (\<lambda>i. i) [1..n - 1])"
    unfolding length_rows eq ..
  then show ?thesis
    using sum_list_upto_1 [of "n - 1"] assms False
    by (simp add: algebra_simps)
qed

lemma citation_loops_fill:
  assumes "0 \<le> n" and "int (length (elems v)) = n * (n - 1)"
  shows "citation_loops n (Some (v, 0)) =
           Some (v\<lparr>elems := flat (rows (\<lambda>i. [0..i - 1]) [1..n - 1])\<rparr>, n * (n - 1))"
proof -
  have "fold (\<lambda>i. fold (write_edge i) [0..i - 1]) [1..n - 1] (Some (v, 0)) =
          Some (v\<lparr>elems := [] @ flat (rows (\<lambda>i. [0..i - 1]) [1..n - 1]) @ []\<rparr>,
                0 + 2 * int (length (rows (\<lambda>i. [0..i - 1]) [1..n - 1])))"
    using assms length_citation_rows [OF assms(1)]
    by (intro fold_rows_write_edge [where mid = "elems v"]) simp_all
  then show ?thesis
    using length_citation_rows [OF assms(1)]
    by (simp add: citation_loops_def for_loop_eq_fold)
qed

lemma igraph_integer_fits:
  assumes "0 < bits" and "- (2 ^ (bits - 1)) \<le> x" and "x < 2 ^ (bits - 1)"
  shows "igraph_integer bits x = x"
proof -
  from assms(1) have "(2::int) ^ bits = 2 * 2 ^ (bits - 1)"
    by (cases bits) simp_all
  with assms(2, 3) show ?thesis
    by (simp add: igraph_integer_def mod_pos_pos_trivial)
qed

lemma igraph_integer_less: "igraph_integer bits x < 2 ^ (bits - 1)"
proof -
  have "(2::int) ^ bits \<le> 2 * 2 ^ (bits - 1)"
    by (cases bits) simp_all
  moreover have "(x + 2 ^ (bits - 1)) mod 2 ^ bits < 2 ^ bits"
    by simp
  ultimately show ?thesis
    unfolding igraph_integer_def by linarith
qed

lemma citation_size_fits:
  assumes "0 < bits" and "0 \<le> n" and "n * (n - 1) < 2 ^ (bits - 1)"
  shows "igraph_integer bits (n * igraph_integer bits (n - 1)) = n * (n - 1)"
proof -
  have pos: "(0::int) < 2 ^ (bits - 1)"
    by simp
  have nn: "0 \<le> n * (n - 1)"
    using assms(2) by (cases "n = 0") simp_all
  have "n - 1 \<le> n * (n - 1)"
  proof (cases "n = 0")
    case True
    then show ?thesis by simp
  next
    case False
    with assms(2) have "1 * (n - 1) \<le> n * (n - 1)"
      by (intro mult_right_mono) simp_all
    then show ?thesis by simp
  qed
  with assms(3) have "n - 1 < 2 ^ (bits - 1)"
    by linarith
  moreover from assms(2) pos have "- (2 ^ (bits - 1)) \<le> n - 1"
    by linarith
  ultimately have "igraph_integer bits (n - 1) = n - 1"
    by (intro igraph_integer_fits assms(1))
  moreover from nn pos have "- (2 ^ (bits - 1)) \<le> n * (n - 1)"
    by linarith
  ultimately show ?thesis
    using assms(1, 3) by (simp add: igraph_integer_fits)
qed

lemma igraph_full_citation_edges_rows:
  assumes "0 < bits" and "0 \<le> n" and "n * (n - 1) < 2 ^ (bits - 1)"
  shows "igraph_full_citation_edges bits n =
           Some (\<lparr>elems = flat (rows (\<lambda>i. [0..i - 1]) [1..n - 1]),
                  capacity = nat (n * (n - 1)), grown = 0\<rparr>, n * (n - 1))"
proof -
  have "0 \<le> n * (n - 1)"
    using assms(2) by (cases "n = 0") simp_all
  then have "int (length (elems (igraph_vector_init (n * (n - 1))))) = n * (n - 1)"
    by (simp add: igraph_vector_init_def)
  from citation_loops_fill [OF assms(2) this] show ?thesis
    by (simp add: igraph_full_citation_edges_def citation_size_fits [OF assms]
        igraph_vector_init_def)
qed


lemma sorted_citation_rows: "sorted_wrt emit_order (rows (\<lambda>i. [0..i - 1]) [1..n - 1])"
  by (rule sorted_wrt_rows) (simp_all add: sorted_wrt_less_upto)


lemma write_edge_None [simp]: "write_edge i j None = None"
  by (simp add: write_edge_def)

lemma fold_write_edge_None [simp]: "fold (write_edge i) js None = None"
  by (induction js) simp_all

lemma citation_loops_None: "citation_loops n None = None"
proof -
  have "fold (\<lambda>i. fold (write_edge i) [0..i - 1]) is None = None" for "is"
    by (induction "is") simp_all
  then show ?thesis
    by (simp add: citation_loops_def for_loop_eq_fold)
qed

subsection \<open>A vector shorter than the writes\<close>

lemma write_edge_short:
  assumes "elems v = pre @ mid" and "p = int (length pre)" and "length mid < 2"
  shows "write_edge i j (Some (v, p)) = None"
proof (cases mid)
  case Nil
  with assms show ?thesis
    by (simp add: write_edge_def vector_set_def)
next
  case (Cons a mid')
  with assms have "mid = [a]"
    by simp
  with assms show ?thesis
    by (simp add: write_edge_def vector_set_def)
qed

lemma fold_write_edge_short:
  assumes "elems v = pre @ mid" and "p = int (length pre)" and "length mid < 2 * length js"
  shows "fold (write_edge i) js (Some (v, p)) = None"
  using assms
proof (induction js arbitrary: v pre mid p)
  case Nil
  then show ?case by simp
next
  case (Cons j js)
  show ?case
  proof (cases "length mid < 2")
    case True
    with Cons.prems have "write_edge i j (Some (v, p)) = None"
      by (intro write_edge_short [where mid = mid]) simp_all
    then show ?thesis by simp
  next
    case False
    then obtain a b mid' where mid: "mid = a # b # mid'"
      by (cases mid; cases "tl mid") auto
    have step: "write_edge i j (Some (v, p)) = Some (v\<lparr>elems := pre @ i # j # mid'\<rparr>, p + 2)"
      using Cons.prems mid by (intro write_edge_Some) simp_all
    have "fold (write_edge i) js (Some (v\<lparr>elems := pre @ i # j # mid'\<rparr>, p + 2)) = None"
      using Cons.prems mid by (intro Cons.IH [where pre = "pre @ [i, j]" and mid = mid']) simp_all
    with step show ?thesis by simp
  qed
qed

lemma fold_rows_None: "fold (\<lambda>i. fold (write_edge i) (row i)) is None = None"
  by (induction "is") simp_all

lemma fold_rows_write_edge_short:
  assumes "elems v = pre @ mid" and "p = int (length pre)"
    and "length mid < 2 * length (rows row is)"
  shows "fold (\<lambda>i. fold (write_edge i) (row i)) is (Some (v, p)) = None"
  using assms
proof (induction "is" arbitrary: v pre mid p)
  case Nil
  then show ?case by simp
next
  case (Cons i "is")
  define k where "k = 2 * length (row i)"
  show ?case
  proof (cases "length mid < k")
    case True
    with Cons.prems have "fold (write_edge i) (row i) (Some (v, p)) = None"
      by (intro fold_write_edge_short [where mid = mid]) (simp_all add: k_def)
    then show ?thesis by (simp add: fold_rows_None)
  next
    case False
    then have lk: "length (take k mid) = 2 * length (row i)"
      by (simp add: k_def)
    have ld: "length (drop k mid) < 2 * length (rows row is)"
      using Cons.prems(3) False by (simp add: k_def)
    have e: "elems v = pre @ take k mid @ drop k mid"
      using Cons.prems(1) by simp
    have inner: "fold (write_edge i) (row i) (Some (v, p)) =
        Some (v\<lparr>elems := pre @ flat (map (Pair i) (row i)) @ drop k mid\<rparr>,
              p + 2 * int (length (row i)))"
      by (rule fold_write_edge [OF e lk Cons.prems(2)])
    have "fold (\<lambda>i. fold (write_edge i) (row i)) is
            (Some (v\<lparr>elems := pre @ flat (map (Pair i) (row i)) @ drop k mid\<rparr>,
                   p + 2 * int (length (row i)))) = None"
      using Cons.prems(2) ld
      by (intro Cons.IH [where pre = "pre @ flat (map (Pair i) (row i))" and mid = "drop k mid"])
        simp_all
    with inner show ?thesis by simp
  qed
qed

lemma citation_loops_short:
  assumes "0 \<le> n" and "int (length (elems v)) < n * (n - 1)"
  shows "citation_loops n (Some (v, 0)) = None"
proof -
  have "length (elems v) < 2 * length (rows (\<lambda>i. [0..i - 1]) [1..n - 1])"
    using length_citation_rows [OF assms(1)] assms(2) by linarith
  then have "fold (\<lambda>i. fold (write_edge i) [0..i - 1]) [1..n - 1] (Some (v, 0)) = None"
    by (intro fold_rows_write_edge_short [where pre = "[]" and mid = "elems v"]) simp_all
  then show ?thesis
    by (simp add: citation_loops_def for_loop_eq_fold)
qed

lemma igraph_full_citation_edges_overflow:
  assumes "0 \<le> n" and "2 ^ (bits - 1) \<le> n * (n - 1)"
  shows "igraph_full_citation_edges bits n = None"
proof -
  define sz where "sz = igraph_integer bits (n * igraph_integer bits (n - 1))"
  have "sz < 2 ^ (bits - 1)"
    unfolding sz_def by (rule igraph_integer_less)
  moreover have "(0::int) < 2 ^ (bits - 1)"
    by simp
  ultimately have "int (nat sz) < n * (n - 1)"
    using assms(2) by linarith
  then have "int (length (elems (igraph_vector_init sz))) < n * (n - 1)"
    by (simp add: igraph_vector_init_def)
  from citation_loops_short [OF assms(1) this] show ?thesis
    by (simp add: igraph_full_citation_edges_def sz_def)
qed

subsection \<open>Reserved storage and reallocation\<close>

lemma push_back_within_reserve:
  "within_reserve c v \<Longrightarrow> within_reserve c (igraph_vector_push_back v e)"
  by (auto simp: within_reserve_def igraph_vector_push_back_def Let_def)

lemma push_edge_within_reserve: "within_reserve c v \<Longrightarrow> within_reserve c (push_edge i j v)"
  by (simp add: push_edge_def push_back_within_reserve)

lemma fold_invariant:
  assumes "\<And>x s. P s \<Longrightarrow> P (f x s)" and "P s"
  shows "P (fold f xs s)"
  using assms(2) by (induction xs arbitrary: s) (simp_all add: assms(1))

lemma fold_push_edge_within_reserve:
  "within_reserve c v \<Longrightarrow> within_reserve c (fold (push_edge i) js v)"
  by (rule fold_invariant [where P = "within_reserve c"]) (rule push_edge_within_reserve)

lemma fold_rows_within_reserve:
  assumes "\<And>i v. within_reserve c v \<Longrightarrow> within_reserve c (body i v)" and "within_reserve c v"
  shows "within_reserve c (fold body is v)"
  using assms(2) by (rule fold_invariant [where P = "within_reserve c", rotated]) (rule assms(1))

lemma reserve_within_reserve:
  "0 \<le> c \<Longrightarrow> within_reserve (nat c) (igraph_vector_reserve (igraph_vector_init 0) c)"
  by (simp add: within_reserve_def igraph_vector_reserve_def igraph_vector_init_def)

lemma igraph_full_edges_within_reserve:
  assumes "0 \<le> n" and "igraph_full_edges n directed loops = Inr edges"
  shows "within_reserve (length (edge_pairs (elems edges))) edges"
proof -
  have len: "int (length (rows (full_row n directed loops) [0..n - 1])) =
     (if directed then (if loops then n * n else n * (n - 1))
      else (if loops then n * (n + 1) div 2 else n * (n - 1) div 2))"
    by (rule length_full_rows [OF assms(1)])
  have el: "elems edges = flat (rows (full_row n directed loops) [0..n - 1])"
    using igraph_full_edges_rows [OF assms(1), of directed loops] assms(2) by simp
  have nn: "0 \<le> n * (n - 1)" "0 \<le> n * (n + 1)" "0 \<le> n * n"
    using assms(1) by (cases "n = 0"; simp)+
  have sd: "a sdiv 2 = a div 2" if "0 \<le> a" for a :: int
    using that by (simp add: signed_divide_int_def sgn_if)
  have nat_len: "nat k = m" if "int m = k" for k m
    using that by auto
  show ?thesis
  proof (cases directed; cases loops)
    assume dl: directed loops
    have "within_reserve (nat (n * n))
            (fold (\<lambda>i. fold (push_edge i) [0..n - 1]) [0..n - 1]
               (igraph_vector_reserve (igraph_vector_init 0) (n * n)))"
    proof (rule fold_rows_within_reserve)
      show "within_reserve (nat (n * n)) (igraph_vector_reserve (igraph_vector_init 0) (n * n))"
        by (rule reserve_within_reserve) (use nn in simp)
    qed (intro fold_push_edge_within_reserve)
    moreover have "nat (n * n) = length (rows (full_row n directed loops) [0..n - 1])"
      by (rule nat_len) (use len dl in simp)
    ultimately show ?thesis
      using assms dl el by (simp add: igraph_full_edges_def for_loop_eq_fold)
  next
    assume dl: directed "\<not> loops"
    have "within_reserve (nat (n * (n - 1)))
            (fold (\<lambda>i edges. fold (push_edge i) [i + 1..n - 1] (fold (push_edge i) [0..i - 1] edges))
               [0..n - 1] (igraph_vector_reserve (igraph_vector_init 0) (n * (n - 1))))"
    proof (rule fold_rows_within_reserve)
      show "within_reserve (nat (n * (n - 1))) (igraph_vector_reserve (igraph_vector_init 0) (n * (n - 1)))"
        by (rule reserve_within_reserve) (use nn in simp)
    qed (intro fold_push_edge_within_reserve)
    moreover have "nat (n * (n - 1)) = length (rows (full_row n directed loops) [0..n - 1])"
      by (rule nat_len) (use len dl in simp)
    ultimately show ?thesis
      using assms dl el by (simp add: igraph_full_edges_def for_loop_eq_fold)
  next
    assume dl: "\<not> directed" loops
    have "within_reserve (nat (n * (n + 1) div 2))
            (fold (\<lambda>i. fold (push_edge i) [i..n - 1]) [0..n - 1]
               (igraph_vector_reserve (igraph_vector_init 0) (n * (n + 1) div 2)))"
    proof (rule fold_rows_within_reserve)
      show "within_reserve (nat (n * (n + 1) div 2)) (igraph_vector_reserve (igraph_vector_init 0) (n * (n + 1) div 2))"
        by (rule reserve_within_reserve) (use nn in simp)
    qed (intro fold_push_edge_within_reserve)
    moreover have "nat (n * (n + 1) div 2) = length (rows (full_row n directed loops) [0..n - 1])"
      by (rule nat_len) (use len dl in simp)
    ultimately show ?thesis
      using assms dl el nn by (simp add: igraph_full_edges_def for_loop_eq_fold sd)
  next
    assume dl: "\<not> directed" "\<not> loops"
    have "within_reserve (nat (n * (n - 1) div 2))
            (fold (\<lambda>i. fold (push_edge i) [i + 1..n - 1]) [0..n - 1]
               (igraph_vector_reserve (igraph_vector_init 0) (n * (n - 1) div 2)))"
    proof (rule fold_rows_within_reserve)
      show "within_reserve (nat (n * (n - 1) div 2)) (igraph_vector_reserve (igraph_vector_init 0) (n * (n - 1) div 2))"
        by (rule reserve_within_reserve) (use nn in simp)
    qed (intro fold_push_edge_within_reserve)
    moreover have "nat (n * (n - 1) div 2) = length (rows (full_row n directed loops) [0..n - 1])"
      by (rule nat_len) (use len dl in simp)
    ultimately show ?thesis
      using assms dl el nn by (simp add: igraph_full_edges_def for_loop_eq_fold sd)
  qed
qed

lemma igraph_full_edges_grown:
  assumes "0 \<le> n" and "igraph_full_edges n directed loops = Inr edges"
  shows "grown edges = 0 \<longleftrightarrow> edge_pairs (elems edges) = []"
proof -
  have el: "length (elems edges) = 2 * length (edge_pairs (elems edges))"
    using igraph_full_edges_rows [OF assms(1), of directed loops] assms(2) by auto
  show ?thesis
    using igraph_full_edges_within_reserve [OF assms] el
    by (auto simp: within_reserve_def)
qed

lemma igraph_full_edges_pairs:
  assumes "0 \<le> n"
  shows "\<exists>edges. igraph_full_edges n directed loops = Inr edges \<and>
           edge_pairs (elems edges) = rows (full_row n directed loops) [0..n - 1] \<and>
           length (elems edges) = 2 * length (edge_pairs (elems edges))"
  using igraph_full_edges_rows [OF assms, of directed loops] by auto

lemma citation_loops_in_bounds:
  assumes "0 < bits" and "0 \<le> n" and "n * (n - 1) < 2 ^ (bits - 1)"
  shows "\<exists>edges. igraph_full_citation_edges bits n = Some (edges, n * (n - 1)) \<and>
           int (length (elems edges)) = n * (n - 1) \<and>
           capacity edges = length (elems edges) \<and>
           grown edges = 0 \<and>
           (\<forall>v. int (length (elems v)) = n * (n - 1) \<longrightarrow>
              (\<exists>edges'. citation_loops n (Some (v, 0)) = Some (edges', n * (n - 1)) \<and>
                 elems edges' = elems edges))"
proof -
  have "2 * int (length (flat (rows (\<lambda>i. [0..i - 1]) [1..n - 1]))) = 2 * (n * (n - 1))"
    using length_citation_rows [OF assms(2)] by simp
  then have len: "int (length (flat (rows (\<lambda>i. [0..i - 1]) [1..n - 1]))) = n * (n - 1)"
    by linarith
  then have cap: "nat (n * (n - 1)) = length (flat (rows (\<lambda>i. [0..i - 1]) [1..n - 1]))"
    by linarith
  show ?thesis
    unfolding igraph_full_citation_edges_rows [OF assms]
    using len cap by (simp add: citation_loops_fill [OF assms(2)])
qed

lemma igraph_full_citation_negative:
  assumes "n < 0"
  shows "igraph_full_citation bits igraph_create n directed =
           Some (igraph_create
                   (replicate (nat (igraph_integer bits (n * igraph_integer bits (n - 1)))) 0)
                   n directed)"
proof -
  from assms have "[1..n - 1] = []"
    by simp
  then show ?thesis
    by (simp add: igraph_full_citation_def igraph_full_citation_edges_def citation_loops_def
        for_loop_eq_fold igraph_vector_init_def)
qed

section \<open>The claims\<close>

text \<open>
  C1. For every \<open>n \<ge> 0\<close> and every combination of the flags, \<^verbatim>\<open>igraph_full\<close> produces an
  edge list whose number of edges is the closed form of the variant: \<open>n\<^sup>2\<close> for directed
  with loops, \<open>n (n - 1)\<close> for directed without loops, \<open>n (n + 1) / 2\<close> for undirected with
  loops, \<open>n (n - 1) / 2\<close> for undirected without loops. The vector holds two slots per edge,
  no edge occurs twice, and the edges are all the pairs the variant allows, so none is
  omitted.
\<close>

theorem full_edge_count:
  assumes "0 \<le> n"
  shows "\<exists>edges. igraph_full_edges n directed loops = Inr edges \<and>
           int (length (edge_pairs (elems edges))) =
             (if directed then (if loops then n * n else n * (n - 1))
              else (if loops then n * (n + 1) div 2 else n * (n - 1) div 2)) \<and>
           length (elems edges) = 2 * length (edge_pairs (elems edges)) \<and>
           distinct (edge_pairs (elems edges)) \<and>
           set (edge_pairs (elems edges)) =
             {(i, j). 0 \<le> i \<and> i < n \<and> 0 \<le> j \<and> j < n \<and>
                      (\<not> loops \<longrightarrow> i \<noteq> j) \<and> (\<not> directed \<longrightarrow> i \<le> j)}"
proof -
  obtain edges where e: "igraph_full_edges n directed loops = Inr edges"
    and ep: "edge_pairs (elems edges) = rows (full_row n directed loops) [0..n - 1]"
    and el: "length (elems edges) = 2 * length (edge_pairs (elems edges))"
    using igraph_full_edges_pairs [OF assms] by blast
  have "distinct (rows (full_row n directed loops) [0..n - 1])"
    by (rule emit_order_distinct) (rule sorted_full_rows)
  with e ep el show ?thesis
    by (simp add: length_full_rows [OF assms] set_full_rows)
qed

theorem full_edge_count_witness:
  "(0::int) \<le> 3 \<and>
   (\<exists>edges. igraph_full_edges 3 False False = Inr edges \<and>
      int (length (edge_pairs (elems edges))) = 3 \<and>
      length (elems edges) = 6 \<and>
      distinct (edge_pairs (elems edges)) \<and>
      (0, 1) \<in> set (edge_pairs (elems edges)) \<and>
      (1, 0) \<notin> set (edge_pairs (elems edges)) \<and>
      (1, 1) \<notin> set (edge_pairs (elems edges)))"
  using full_edge_count [of 3 False False] by auto




text \<open>
  C3. The claim: the capacity reserved by \<^verbatim>\<open>igraph_full\<close> holds every slot appended
  afterwards, so no append reallocates. The code reserves one slot per edge and appends two:
  at \<open>n = 2\<close>, directed with loops, \<open>2 * 2 = 4\<close> slots are reserved, \<open>8\<close> are appended, and
  the fifth append reallocates (\<open>grown = 1\<close>).
\<close>

theorem full_reserve_too_small:
  "capacity (igraph_vector_reserve (igraph_vector_init 0) (2 * 2)) = 4 \<and>
   igraph_full_edges 2 True True =
     Inr \<lparr>elems = [0, 0, 0, 1, 1, 0, 1, 1], capacity = 8, grown = 1\<rparr>"
  by code_simp

text \<open>
  C4. The claim: for \<open>n < 0\<close>, \<^verbatim>\<open>igraph_full_citation\<close> fails with \<^verbatim>\<open>IGRAPH_EINVAL\<close>
  before the graph constructor is invoked. The code has no such check: at \<open>n = -1\<close> it
  creates a vector of \<open>(-1) * (-2) = 2\<close> zero slots, runs no loop iteration and invokes the
  constructor with that vector and \<open>n = -1\<close>, whether \<^verbatim>\<open>igraph_integer_t\<close> has 32 or 64
  bits.
\<close>

theorem citation_negative_n_reaches_constructor:
  "igraph_full_citation 32 igraph_create_trace (- 1) True = Some (Inr ([0, 0], - 1, True)) \<and>
   igraph_full_citation 64 igraph_create_trace (- 1) True = Some (Inr ([0, 0], - 1, True))"
  by code_simp

text \<open>
  C5. For every \<open>n < 0\<close>, \<^verbatim>\<open>igraph_full\<close> fails with \<^verbatim>\<open>IGRAPH_EINVAL\<close>: no edge vector
  is produced, and the graph constructor is not invoked, whatever it is. For \<open>n = 0\<close> and
  every combination of the flags the edge vector is empty and is handed to the constructor
  together with \<open>0\<close> and \<open>directed\<close>; the generator itself raises no error.
\<close>

theorem full_negative_n:
  "(n < 0 \<longrightarrow>
      igraph_full_edges n directed loops = Inl IGRAPH_EINVAL \<and>
      igraph_full igraph_create n directed loops = Inl IGRAPH_EINVAL) \<and>
   (\<exists>edges. igraph_full_edges 0 directed loops = Inr edges \<and> elems edges = [] \<and>
      edge_pairs (elems edges) = []) \<and>
   igraph_full igraph_create 0 directed loops = igraph_create [] 0 directed"
proof -
  have 0: "igraph_full_edges 0 directed loops = Inr \<lparr>elems = [], capacity = 0, grown = 0\<rparr>"
    by (simp add: igraph_full_edges_def Let_def for_loop.simps [of 0 0] igraph_vector_init_def
        igraph_vector_reserve_def)
  show ?thesis
    by (simp add: igraph_full_def 0) (simp add: igraph_full_edges_def)
qed

theorem full_negative_n_witness:
  "(-1::int) < 0 \<and>
   igraph_full_edges (-1) True False = Inl IGRAPH_EINVAL \<and>
   igraph_full igraph_create_trace (-1) True False = Inl IGRAPH_EINVAL \<and>
   igraph_full igraph_create_trace 0 True False = Inr ([], 0, True)"
  using full_negative_n [of "-1" True False igraph_create_trace]
    full_negative_n [of 0 True False igraph_create_trace]
  by (simp add: igraph_create_trace_def)

text \<open>
  C6. For every \<open>n \<ge> 0\<close> and every variant of \<^verbatim>\<open>igraph_full\<close>, the first indices of the
  emitted edges never decrease, and among the edges with the same first index the second
  index increases strictly. In the directed variant without loops, for each \<open>i\<close> every
  edge \<open>(i, j)\<close> with \<open>j < i\<close> is emitted before every edge \<open>(i, j')\<close> with \<open>j' > i\<close>.
\<close>

theorem full_emission_order:
  assumes "0 \<le> n"
  shows "\<exists>edges es. igraph_full_edges n directed loops = Inr edges \<and>
           es = edge_pairs (elems edges) \<and>
           sorted (map fst es) \<and>
           (\<forall>p q. p < q \<and> q < length es \<and> fst (es ! p) = fst (es ! q) \<longrightarrow>
                  snd (es ! p) < snd (es ! q)) \<and>
           (directed \<and> \<not> loops \<longrightarrow>
             (\<forall>p q. p < length es \<and> q < length es \<and> fst (es ! p) = fst (es ! q) \<and>
                    snd (es ! p) < fst (es ! p) \<and> fst (es ! q) < snd (es ! q) \<longrightarrow> p < q))"
proof -
  obtain edges where e: "igraph_full_edges n directed loops = Inr edges"
    and ep: "edge_pairs (elems edges) = rows (full_row n directed loops) [0..n - 1]"
    using igraph_full_edges_pairs [OF assms] by blast
  define es where "es = edge_pairs (elems edges)"
  have s: "sorted_wrt emit_order es"
    unfolding es_def ep by (rule sorted_full_rows)
  then have nth: "emit_order (es ! p) (es ! q)" if "p < q" "q < length es" for p q
    using that by (simp add: sorted_wrt_iff_nth_less)
  have 1: "sorted (map fst es)"
    unfolding sorted_wrt_map
    by (rule sorted_wrt_mono_rel [OF _ s]) (auto simp: emit_order_def)
  have 2: "snd (es ! p) < snd (es ! q)"
    if "p < q" "q < length es" "fst (es ! p) = fst (es ! q)" for p q
    using nth [OF that(1, 2)] that(3) by (simp add: emit_order_def)
  have 3: "p < q"
    if "p < length es" "q < length es" "fst (es ! p) = fst (es ! q)"
      "snd (es ! p) < fst (es ! p)" "fst (es ! q) < snd (es ! q)" for p q
  proof (rule ccontr)
    assume "\<not> p < q"
    then consider "p = q" | "q < p" by linarith
    then show False
    proof cases
      case 1
      with that show ?thesis by simp
    next
      case 2
      from nth [OF 2 that(1)] that show ?thesis
        by (simp add: emit_order_def)
    qed
  qed
  from e 1 2 3 show ?thesis
    unfolding es_def by blast
qed

theorem full_emission_order_witness:
  "(0::int) \<le> 3 \<and>
   (\<exists>edges es. igraph_full_edges 3 True False = Inr edges \<and>
      es = edge_pairs (elems edges) \<and>
      es = [(0, 1), (0, 2), (1, 0), (1, 2), (2, 0), (2, 1)] \<and>
      sorted (map fst es) \<and>
      (2::nat) < 3 \<and> 3 < length es \<and> fst (es ! 2) = fst (es ! 3) \<and>
      snd (es ! 2) < fst (es ! 2) \<and> fst (es ! 3) < snd (es ! 3) \<and>
      snd (es ! 2) < snd (es ! 3))"
proof -
  have v: "igraph_full_edges 3 True False =
             Inr \<lparr>elems = [0, 1, 0, 2, 1, 0, 1, 2, 2, 0, 2, 1], capacity = 12, grown = 1\<rparr>"
    by code_simp
  from full_emission_order [of 3 True False] v show ?thesis
    by auto
qed







text \<open>
  C9. The directed variant with loops of \<^verbatim>\<open>igraph_full\<close> at \<open>n = 3\<close> emits the self-loops
  \<open>(0,0)\<close>, \<open>(1,1)\<close> and \<open>(2,2)\<close>. The directed variant without loops emits no edge
  \<open>(i, i)\<close>, for any \<open>i\<close> and any \<open>n \<ge> 0\<close>.
\<close>

theorem full_self_loops:
  "(\<exists>edges. igraph_full_edges 3 True True = Inr edges \<and>
      (0, 0) \<in> set (edge_pairs (elems edges)) \<and>
      (1, 1) \<in> set (edge_pairs (elems edges)) \<and>
      (2, 2) \<in> set (edge_pairs (elems edges))) \<and>
   (0 \<le> n \<longrightarrow>
      (\<exists>edges. igraph_full_edges n True False = Inr edges \<and>
         (\<forall>i. (i, i) \<notin> set (edge_pairs (elems edges)))))"
proof -
  have "igraph_full_edges 3 True True =
     Inr \<lparr>elems = [0, 0, 0, 1, 0, 2, 1, 0, 1, 1, 1, 2, 2, 0, 2, 1, 2, 2], capacity = 18, grown = 1\<rparr>"
    by code_simp
  then have 1: "\<exists>edges. igraph_full_edges 3 True True = Inr edges \<and>
      (0, 0) \<in> set (edge_pairs (elems edges)) \<and>
      (1, 1) \<in> set (edge_pairs (elems edges)) \<and>
      (2, 2) \<in> set (edge_pairs (elems edges))"
    by simp
  have 2: "\<exists>edges. igraph_full_edges n True False = Inr edges \<and>
         (\<forall>i. (i, i) \<notin> set (edge_pairs (elems edges)))" if "0 \<le> n"
    using igraph_full_edges_pairs [OF that, of True False]
    by (auto simp: set_full_rows)
  from 1 2 show ?thesis by blast
qed

theorem full_self_loops_witness:
  "(0::int) \<le> 3 \<and>
   igraph_full_edges 3 True False =
     Inr \<lparr>elems = [0, 1, 0, 2, 1, 0, 1, 2, 2, 0, 2, 1], capacity = 12, grown = 1\<rparr> \<and>
   (1, 1) \<notin> set (edge_pairs [0, 1, 0, 2, 1, 0, 1, 2, 2, 0, 2, 1 :: int])"
proof -
  have v: "igraph_full_edges 3 True False =
     Inr \<lparr>elems = [0, 1, 0, 2, 1, 0, 1, 2, 2, 0, 2, 1], capacity = 12, grown = 1\<rparr>"
    by code_simp
  from full_self_loops [of 3] v show ?thesis
    by auto
qed

text \<open>
  C10. The claim: for every \<open>n \<ge> 0\<close>, every write \<^verbatim>\<open>VECTOR(edges)[ptr++]\<close> of
  \<^verbatim>\<open>igraph_full_citation\<close> stays inside the vector of \<open>n (n - 1)\<close> slots, and \<open>ptr\<close> ends
  at \<open>n (n - 1)\<close>. The code computes the number of slots in \<^verbatim>\<open>igraph_integer_t\<close> with no
  check. With 32 bits, at \<open>n = 46342\<close> the product \<open>46342 * 46341\<close> wraps to a negative
  size: the vector has no slot and the loops, which write \<open>n (n - 1)\<close> slots, leave it at
  the first write. With 64 bits the same happens at \<open>n = 3037000501\<close>.
\<close>

theorem citation_overflow_out_of_bounds:
  "igraph_integer 32 (46342 * igraph_integer 32 (46342 - 1)) = - 2147432674 \<and>
   igraph_full_citation_edges 32 46342 = None \<and>
   igraph_integer 64 (3037000501 * igraph_integer 64 (3037000501 - 1)) = - 9223372033672301116 \<and>
   igraph_full_citation_edges 64 3037000501 = None"
proof -
  have "igraph_integer 32 (46342 * igraph_integer 32 (46342 - 1)) = - 2147432674"
    by (simp add: igraph_integer_def)
  moreover have "igraph_full_citation_edges 32 46342 = None"
    by (rule igraph_full_citation_edges_overflow) simp_all
  moreover have "igraph_integer 64 (3037000501 * igraph_integer 64 (3037000501 - 1)) =
                   - 9223372033672301116"
    by (simp add: igraph_integer_def)
  moreover have "igraph_full_citation_edges 64 3037000501 = None"
    by (rule igraph_full_citation_edges_overflow) simp_all
  ultimately show ?thesis by blast
qed

end
